theory Spec2Isabelle
  imports Main "HOL-Library.Word" "HOL-Library.Multiset"
begin

section \<open>Alignment arithmetic of align_demo\<close>

text \<open>
  The C type \<open>size_t\<close> is an unsigned integer of a width fixed by the platform. It is
  modelled as \<open>'a word\<close> for an arbitrary width \<open>LENGTH('a)\<close>, so that every theorem
  below holds on each platform; concrete instances are given at \<open>64 word\<close>.
  Unsigned arithmetic wraps around, as \<open>+\<close>, \<open>-\<close> and \<open>*\<close> on words do.
\<close>

type_synonym byte = "8 word"

text \<open>\<open>SIZE_MAX\<close> of \<open>stdint.h\<close>: the largest value of \<open>size_t\<close>, all bits set.\<close>

definition SIZE_MAX :: "'a::len word" where
  "SIZE_MAX = - 1"

text \<open>
  The C operator \<open>%\<close> on \<open>size_t\<close>. A zero divisor is undefined behaviour in C, while
  \<open>x mod 0 = x\<close> in HOL: the model returns \<open>None\<close> there, and the functions using it
  propagate \<open>None\<close>.
\<close>

definition c_mod :: "'a::len word \<Rightarrow> 'a word \<Rightarrow> 'a word option" where
  "c_mod a b = (if b = 0 then None else Some (a mod b))"

subsection \<open>Facts about the overflow guards\<close>

lemma unat_SIZE_MAX: "unat (SIZE_MAX :: 'a::len word) = 2 ^ LENGTH('a) - 1"
  by (simp add: SIZE_MAX_def unsigned_minus_1_eq_mask mask_eq_exp_minus_1)

lemma unat_SIZE_MAX_sub:
  "unat (SIZE_MAX - x) = 2 ^ LENGTH('a) - 1 - unat (x :: 'a::len word)"
proof -
  have "x \<le> SIZE_MAX" by (simp add: SIZE_MAX_def)
  then show ?thesis by (simp add: unat_sub unat_SIZE_MAX)
qed

lemma guard_le_iff:
  "(npow \<le> SIZE_MAX - npow) = (2 * unat (npow :: 'a::len word) < 2 ^ LENGTH('a))"
proof -
  have "unat npow < 2 ^ LENGTH('a)" by simp
  then show ?thesis
    unfolding word_le_nat_alt unat_SIZE_MAX_sub by linarith
qed

lemma guard_less_iff:
  "(SIZE_MAX - a < b) = (2 ^ LENGTH('a) \<le> unat (a :: 'a::len word) + unat b)"
proof -
  have "unat a < 2 ^ LENGTH('a)" by simp
  then show ?thesis
    unfolding word_less_nat_alt unat_SIZE_MAX_sub by linarith
qed

lemma unat_double:
  "2 * unat (npow :: 'a::len word) < 2 ^ LENGTH('a) \<Longrightarrow> unat (npow * 2) = 2 * unat npow"
proof -
  assume "2 * unat npow < 2 ^ LENGTH('a)"
  then have "unat (npow + npow) = unat npow + unat npow"
    using unat_add_lem [of npow npow] by simp
  moreover have "npow * 2 = npow + npow" by simp
  ultimately have "unat (npow * 2) = unat npow + unat npow" by (simp only:)
  then show ?thesis by (simp only: mult_2)
qed

subsection \<open>LargestPowerOfTwoFactor\<close>

text \<open>
  The loop of \<open>LargestPowerOfTwoFactor\<close>, with its two variables \<open>pow\<close> and \<open>npow\<close>:
  \<^verbatim>\<open>while (Number >= npow && !(Number % npow) && SIZE_MAX - npow >= npow)
    { pow = npow; npow *= 2; }
  return pow;\<close>
  The three conditions are evaluated from left to right, so \<open>%\<close> runs only when
  \<open>Number >= npow\<close>. The loop terminates from every state: a next round is entered only
  with \<open>npow\<close> nonzero and at most \<open>SIZE_MAX - npow\<close>, so doubling it does not wrap and
  \<open>npow\<close> grows strictly.
\<close>

function LPTF_loop :: "'a::len word \<Rightarrow> 'a word \<Rightarrow> 'a word \<Rightarrow> 'a word option" where
  "LPTF_loop Number pow npow =
     (if Number \<ge> npow then
        (case c_mod Number npow of
           None \<Rightarrow> None
         | Some r \<Rightarrow>
             if r = 0 \<and> SIZE_MAX - npow \<ge> npow
             then LPTF_loop Number npow (npow * 2)
             else Some pow)
      else Some pow)"
  by pat_completeness auto
termination
proof (relation "measure (\<lambda>(Number, pow, npow). 2 ^ LENGTH('a) - unat npow)")
  show "wf (measure (\<lambda>(Number :: 'a word, pow :: 'a word, npow :: 'a word).
              2 ^ LENGTH('a) - unat npow))"
    by simp
next
  fix Number pow npow r :: "'a word"
  assume "c_mod Number npow = Some r" and g: "r = 0 \<and> npow \<le> SIZE_MAX - npow"
  then have "npow \<noteq> 0" by (auto simp: c_mod_def split: if_splits)
  then have "0 < unat npow" by (simp add: unat_gt_0)
  moreover from g have "2 * unat npow < 2 ^ LENGTH('a)" by (simp add: guard_le_iff)
  ultimately show "((Number, npow, npow * 2), (Number, pow, npow))
      \<in> measure (\<lambda>(Number, pow, npow). 2 ^ LENGTH('a) - unat npow)"
    by (simp add: unat_double)
qed

declare LPTF_loop.simps [simp del]

text \<open>\<open>npow = pow = 1;\<close> and the loop.\<close>

definition LargestPowerOfTwoFactor :: "'a::len word \<Rightarrow> 'a word option" where
  "LargestPowerOfTwoFactor Number = LPTF_loop Number 1 1"

subsection \<open>TailAlignedSize, PaddingSize, TailOffset\<close>

text \<open>
  \<open>TailAlignedSize\<close> follows the source statement by statement; each \<open>return 0\<close> is a
  \<open>Some 0\<close>. \<open>None\<close> stands for undefined behaviour (a zero divisor) only.
\<close>

definition TailAlignedSize :: "'a::len word \<Rightarrow> 'a word \<Rightarrow> 'a word option" where
  "TailAlignedSize HeadSize TailSize =
     (if HeadSize = 0 \<or> TailSize = 0 then Some 0
      else case LargestPowerOfTwoFactor HeadSize of
        None \<Rightarrow> None
      | Some hpow \<Rightarrow>
      (case LargestPowerOfTwoFactor TailSize of
        None \<Rightarrow> None
      | Some tpow \<Rightarrow>
         let factor = (if hpow > tpow then hpow else tpow) in
         if SIZE_MAX - HeadSize < TailSize then Some 0
         else
           let sum = HeadSize + TailSize in
           (case c_mod sum factor of
              None \<Rightarrow> None
            | Some remainder \<Rightarrow>
                if remainder \<noteq> 0 then
                  let padding = factor - remainder in
                  if SIZE_MAX - sum < padding then Some 0
                  else Some (sum + padding)
                else Some sum)))"

definition PaddingSize :: "'a::len word \<Rightarrow> 'a word \<Rightarrow> 'a word option" where
  "PaddingSize HeadSize TailSize =
     (case TailAlignedSize HeadSize TailSize of
        None \<Rightarrow> None
      | Some total_size \<Rightarrow>
          if total_size = 0 then Some SIZE_MAX
          else Some (total_size - TailSize - HeadSize))"

definition TailOffset :: "'a::len word \<Rightarrow> 'a word \<Rightarrow> 'a word" where
  "TailOffset TotalSize TailSize = TotalSize - TailSize"

subsection \<open>SortSizesDescending\<close>

text \<open>
  The array is raw memory: \<open>Count\<close> records of \<open>Size\<close> bytes each, starting at the address
  \<open>Array\<close>. The model takes the bytes found at \<open>Array\<close> as a list (\<open>None\<close> for a null
  pointer) and returns the bytes found there after the call. \<open>sizeof (size_t)\<close> is the
  width of the type in bytes of 8 bits.
\<close>

definition sizeof_size_t :: "'a::len word" where
  "sizeof_size_t = of_nat (LENGTH('a) div 8)"

text \<open>
  The comparison function reads a \<open>size_t\<close> through each of its two pointers, that is the
  first \<open>sizeof (size_t)\<close> bytes of the element, at offset 0. How these bytes represent a
  value is fixed by the platform and not by this code: the function \<open>load_size\<close> decoding
  them is a parameter.
\<close>

definition record_key :: "(byte list \<Rightarrow> 'a::len word) \<Rightarrow> byte list \<Rightarrow> 'a word" where
  "record_key load_size a = load_size (take (LENGTH('a) div 8) a)"

definition size_sorter :: "(byte list \<Rightarrow> 'a::len word) \<Rightarrow> byte list \<Rightarrow> byte list \<Rightarrow> int" where
  "size_sorter load_size a b =
     (let sa = record_key load_size a;
          sb = record_key load_size b
      in if sa < sb then 1
         else if sa > sb then - 1
         else 0)"

text \<open>
  \<open>qsort\<close> belongs to the C library, not to this repository. Its effect on memory is
  modelled through a parameter \<open>libc_sort\<close>, the library's way of ordering a list of
  elements with a comparison function: the call cuts the first \<open>nmemb * width\<close> bytes at
  \<open>base\<close> into \<open>nmemb\<close> elements of \<open>width\<close> bytes, orders them and writes them back in
  place; the bytes behind the array stay as they are.
\<close>

fun elements :: "nat \<Rightarrow> nat \<Rightarrow> 'b list \<Rightarrow> 'b list list" where
  "elements 0 width base = []"
| "elements (Suc nmemb) width base = take width base # elements nmemb width (drop width base)"

definition qsort ::
  "(('b list \<Rightarrow> 'b list \<Rightarrow> int) \<Rightarrow> 'b list list \<Rightarrow> 'b list list) \<Rightarrow>
   'b list \<Rightarrow> nat \<Rightarrow> nat \<Rightarrow> ('b list \<Rightarrow> 'b list \<Rightarrow> int) \<Rightarrow> 'b list" where
  "qsort libc_sort base nmemb width compar =
     concat (libc_sort compar (elements nmemb width base)) @ drop (nmemb * width) base"

text \<open>
  What the C standard promises of \<open>qsort\<close>: when the results of the comparison function
  define a total ordering of the elements of the array, the array ends as a rearrangement
  of its elements that ascends for the comparison function. The order of elements that
  compare equal is left open.
\<close>

definition total_ordering :: "('e \<Rightarrow> 'e \<Rightarrow> int) \<Rightarrow> 'e set \<Rightarrow> bool" where
  "total_ordering compar A \<longleftrightarrow>
     (\<forall>a\<in>A. \<forall>b\<in>A. (compar a b < 0) = (0 < compar b a)) \<and>
     (\<forall>a\<in>A. \<forall>b\<in>A. \<forall>c\<in>A. compar a b \<le> 0 \<and> compar b c \<le> 0 \<longrightarrow> compar a c \<le> 0)"

definition qsort_contract ::
  "(('e \<Rightarrow> 'e \<Rightarrow> int) \<Rightarrow> 'e list \<Rightarrow> 'e list) \<Rightarrow> bool" where
  "qsort_contract libc_sort \<longleftrightarrow>
     (\<forall>compar xs. total_ordering compar (set xs) \<longrightarrow>
        mset (libc_sort compar xs) = mset xs \<and>
        sorted_wrt (\<lambda>a b. compar a b \<le> 0) (libc_sort compar xs))"

text \<open>
  \<^verbatim>\<open>if (!Array || !Count || Size < sizeof (size_t)) return;
  qsort(Array, Count, Size, size_sorter);\<close>
\<close>

definition SortSizesDescending ::
  "((byte list \<Rightarrow> byte list \<Rightarrow> int) \<Rightarrow> byte list list \<Rightarrow> byte list list) \<Rightarrow>
   (byte list \<Rightarrow> 'a::len word) \<Rightarrow> byte list option \<Rightarrow> 'a word \<Rightarrow> 'a word \<Rightarrow> byte list option" where
  "SortSizesDescending libc_sort load_size Array Count Size =
     (if Array = None \<or> Count = 0 \<or> Size < sizeof_size_t then Array
      else map_option
             (\<lambda>base. qsort libc_sort base (unat Count) (unat Size) (size_sorter load_size))
             Array)"

subsection \<open>Instances of the two parameters\<close>

text \<open>
  For evaluation on concrete memory: the little-endian representation of \<open>size_t\<close>, and
  insertion sort with a comparison function as one library sort.
\<close>

fun load_le :: "byte list \<Rightarrow> 'a::len word" where
  "load_le [] = 0"
| "load_le (b # bs) = ucast b + 256 * load_le bs"

fun insert_by :: "('e \<Rightarrow> 'e \<Rightarrow> int) \<Rightarrow> 'e \<Rightarrow> 'e list \<Rightarrow> 'e list" where
  "insert_by compar x [] = [x]"
| "insert_by compar x (y # ys) =
     (if compar x y \<le> 0 then x # y # ys else y # insert_by compar x ys)"

fun insertion_sort :: "('e \<Rightarrow> 'e \<Rightarrow> int) \<Rightarrow> 'e list \<Rightarrow> 'e list" where
  "insertion_sort compar [] = []"
| "insertion_sort compar (x # xs) = insert_by compar x (insertion_sort compar xs)"

section \<open>Properties of LargestPowerOfTwoFactor\<close>

lemma LPTF_loop_continue:
  "npow \<noteq> 0 \<Longrightarrow> npow \<le> Number \<Longrightarrow> Number mod npow = 0 \<Longrightarrow> npow \<le> SIZE_MAX - npow \<Longrightarrow>
   LPTF_loop Number pow npow = LPTF_loop Number npow (npow * 2)"
  by (subst LPTF_loop.simps) (simp add: c_mod_def)

lemma LPTF_loop_exit:
  "npow \<noteq> 0 \<Longrightarrow> \<not> (npow \<le> Number \<and> Number mod npow = 0 \<and> npow \<le> SIZE_MAX - npow) \<Longrightarrow>
   LPTF_loop Number pow npow = Some pow"
  by (subst LPTF_loop.simps, cases "npow \<le> Number"; cases "Number mod npow = 0")
     (simp_all add: c_mod_def)

lemma LPTF_loop_props:
  "unat npow = 2 ^ i \<Longrightarrow> unat pow = 2 ^ j \<Longrightarrow> Number mod pow = 0 \<Longrightarrow>
   \<exists>r k. LPTF_loop Number pow npow = Some r \<and> unat r = 2 ^ k \<and> Number mod r = 0"
proof (induction Number pow npow arbitrary: i j rule: LPTF_loop.induct)
  case (1 Number pow npow)
  from "1.prems"(1) have nz: "npow \<noteq> 0" by (auto simp flip: unat_gt_0)
  show ?case
  proof (cases "npow \<le> Number \<and> Number mod npow = 0 \<and> npow \<le> SIZE_MAX - npow")
    case True
    then have "unat (npow * 2) = 2 ^ Suc i"
      using "1.prems"(1) by (simp add: guard_le_iff unat_double)
    from "1.IH" [OF _ _ _ this "1.prems"(1), of 0] True nz
    have "\<exists>r k. LPTF_loop Number npow (npow * 2) = Some r \<and> unat r = 2 ^ k \<and> Number mod r = 0"
      by (simp add: c_mod_def)
    with True nz show ?thesis
      by (simp add: LPTF_loop_continue)
  next
    case False
    from LPTF_loop_exit [OF nz False] "1.prems" show ?thesis
      by (intro exI [of _ pow] exI [of _ j]) simp
  qed
qed

lemma LPTF_Some:
  "\<exists>r k. LargestPowerOfTwoFactor Number = Some r \<and> unat r = 2 ^ k \<and> Number mod r = 0"
  unfolding LargestPowerOfTwoFactor_def
  by (rule LPTF_loop_props [of 1 0 1 0]) simp_all

lemma LPTF_odd:
  assumes "odd (unat Number)"
  shows "LargestPowerOfTwoFactor Number = Some 1"
proof (cases "(1 :: 'a word) \<le> SIZE_MAX - 1")
  case False
  then show ?thesis
    unfolding LargestPowerOfTwoFactor_def by (simp add: LPTF_loop_exit)
next
  case True
  then have two: "unat (2 :: 'a::len word) = 2"
    using unat_double [of "1 :: 'a word"] by (simp add: guard_le_iff)
  then have nz2: "(2 :: 'a word) \<noteq> 0" by (auto simp flip: unat_gt_0)
  from assms have "Number \<noteq> 0" by (auto simp flip: unat_gt_0 intro: Nat.gr0I)
  then have "1 \<le> Number" by (simp add: word_le_nat_alt flip: unat_gt_0)
  with True have "LPTF_loop Number 1 1 = LPTF_loop Number 1 (1 * 2)"
    by (intro LPTF_loop_continue) simp_all
  moreover have "unat (Number mod 2) = unat Number mod 2"
    by (simp only: unat_mod two)
  with assms have "unat (Number mod 2) \<noteq> 0" by (simp add: odd_iff_mod_2_eq_one)
  then have "Number mod 2 \<noteq> 0" by (simp add: unat_eq_0)
  then have "LPTF_loop Number 1 2 = Some 1"
    using nz2 by (intro LPTF_loop_exit) simp_all
  ultimately show ?thesis
    unfolding LargestPowerOfTwoFactor_def by simp
qed

lemma word_mod_0_dvd: "b \<noteq> 0 \<Longrightarrow> (a :: 'a::len word) mod b = 0 \<longleftrightarrow> unat b dvd unat a"
proof -
  have "a mod b = 0 \<longleftrightarrow> unat (a mod b) = 0" by (simp add: unat_eq_0)
  then show ?thesis by (simp add: unat_mod dvd_eq_mod_eq_0)
qed

text \<open>
  C9. \<open>LargestPowerOfTwoFactor(0)\<close> returns 1, and its loop terminates on input 0: the
  model is a total function (its termination is proved above for every state), and on 0
  the first test \<open>Number >= npow\<close> already fails with \<open>npow = 1\<close>, so the result is the
  initial \<open>pow = 1\<close>.
\<close>

theorem LargestPowerOfTwoFactor_zero:
  "LargestPowerOfTwoFactor (0 :: 'a::len word) = Some 1"
  unfolding LargestPowerOfTwoFactor_def
  by (subst LPTF_loop.simps) simp

text \<open>
  C4. For every nonzero \<open>Number\<close>, \<open>LargestPowerOfTwoFactor(Number)\<close> is a power of two
  that evenly divides \<open>Number\<close> (as \<open>Number % r == 0\<close> in C, and as divisibility of the
  values), the result is at least 1, and an odd input yields exactly 1. The instances of
  the specification hold on a 64-bit \<open>size_t\<close>: 1 gives 1, 8 gives 8, 12 gives 4 and
  7 gives 1.
\<close>

theorem LargestPowerOfTwoFactor_divides:
  "(Number \<noteq> 0 \<longrightarrow>
     (\<exists>r. LargestPowerOfTwoFactor Number = Some r \<and> (\<exists>k. unat r = 2 ^ k) \<and>
          Number mod r = 0 \<and> unat r dvd unat Number \<and> 1 \<le> r \<and>
          (odd (unat Number) \<longrightarrow> r = 1))) \<and>
   LargestPowerOfTwoFactor (1 :: 64 word) = Some 1 \<and>
   LargestPowerOfTwoFactor (8 :: 64 word) = Some 8 \<and>
   LargestPowerOfTwoFactor (12 :: 64 word) = Some 4 \<and>
   LargestPowerOfTwoFactor (7 :: 64 word) = Some 1"
proof (intro conjI impI)
  assume "Number \<noteq> 0"
  obtain r k where r: "LargestPowerOfTwoFactor Number = Some r" "unat r = 2 ^ k" "Number mod r = 0"
    using LPTF_Some [of Number] by (elim exE conjE)
  from r(2) have "0 < unat r" by simp
  then have rnz: "r \<noteq> 0" by (simp add: unat_gt_0)
  then have one: "1 \<le> r" by (simp add: word_le_nat_alt flip: unat_gt_0)
  from r(3) rnz have dvd: "unat r dvd unat Number" by (simp add: word_mod_0_dvd)
  have odd: "odd (unat Number) \<longrightarrow> r = 1" using LPTF_odd [of Number] r(1) by auto
  show "\<exists>r. LargestPowerOfTwoFactor Number = Some r \<and> (\<exists>k. unat r = 2 ^ k) \<and>
          Number mod r = 0 \<and> unat r dvd unat Number \<and> 1 \<le> r \<and>
          (odd (unat Number) \<longrightarrow> r = 1)"
  proof (intro exI conjI)
    show "LargestPowerOfTwoFactor Number = Some r" by (fact r(1))
    show "unat r = 2 ^ k" by (fact r(2))
    show "Number mod r = 0" by (fact r(3))
    show "unat r dvd unat Number" by (fact dvd)
    show "1 \<le> r" by (fact one)
    show "odd (unat Number) \<longrightarrow> r = 1" by (fact odd)
  qed
qed (simp_all add: LargestPowerOfTwoFactor_def LPTF_loop.simps c_mod_def guard_le_iff)

text \<open>The theorem at the nonzero input 12 and at the odd input 7, on 64 bits.\<close>

theorem LargestPowerOfTwoFactor_divides_witness:
  "(12 :: 64 word) \<noteq> 0 \<and>
   (\<exists>r. LargestPowerOfTwoFactor (12 :: 64 word) = Some r \<and> (\<exists>k. unat r = 2 ^ k) \<and>
          12 mod r = 0 \<and> unat r dvd unat (12 :: 64 word) \<and> 1 \<le> r)"
  using LargestPowerOfTwoFactor_divides [of "12 :: 64 word"] by auto

subsection \<open>Powers of two as input\<close>

text \<open>
  On a \<open>size_t\<close> of \<open>w\<close> bits, every power of two up to \<open>2 ^ (w - 2)\<close> is returned
  unchanged (\<open>LPTF_two_power\<close>), and the largest one, \<open>2 ^ (w - 1)\<close>, gives
  \<open>2 ^ (w - 2)\<close> (\<open>LPTF_top_power\<close>).
\<close>

lemma unat_two_power: "k < LENGTH('a) \<Longrightarrow> unat (2 ^ k :: 'a::len word) = 2 ^ k"
proof -
  assume k: "k < LENGTH('a)"
  have "(2 ^ k :: 'a word) = of_nat (2 ^ k)" by simp
  then have "unat (2 ^ k :: 'a word) = 2 ^ k mod 2 ^ LENGTH('a)"
    by (simp only: unat_of_nat)
  with k show ?thesis by simp
qed

lemma two_power_nonzero: "k < LENGTH('a) \<Longrightarrow> (2 ^ k :: 'a::len word) \<noteq> 0"
proof
  assume k: "k < LENGTH('a)" and "(2 ^ k :: 'a word) = 0"
  then have "unat (2 ^ k :: 'a word) = 0" by (simp only: unat_0)
  with unat_two_power [OF k] show False by simp
qed

lemma LPTF_loop_two_power_step:
  fixes Number :: "'a::len word"
  assumes n: "unat Number = 2 ^ k" and ik: "i \<le> k" and i: "Suc i < LENGTH('a)"
  shows "LPTF_loop Number pow (2 ^ i) = LPTF_loop Number (2 ^ i) (2 ^ Suc i)"
proof -
  from i have u: "unat (2 ^ i :: 'a word) = 2 ^ i" by (simp add: unat_two_power)
  from i have nz: "(2 ^ i :: 'a word) \<noteq> 0" by (intro two_power_nonzero) simp
  have le: "(2 ^ i :: 'a word) \<le> Number"
    using ik by (simp add: word_le_nat_alt u n)
  have "(2::nat) ^ i dvd 2 ^ k" using ik by (rule le_imp_power_dvd)
  then have dv: "Number mod 2 ^ i = 0"
    using word_mod_0_dvd [OF nz, of Number] by (simp only: u n)
  have "(2::nat) ^ Suc i < 2 ^ LENGTH('a)" using i by (simp only: power_strict_increasing_iff)
  then have g: "(2 ^ i :: 'a word) \<le> SIZE_MAX - 2 ^ i"
    by (simp add: guard_le_iff u)
  from LPTF_loop_continue [OF nz le dv g, of pow] show ?thesis
    by (simp add: mult.commute [of "2 ^ i" 2])
qed

lemma LPTF_loop_two_power:
  fixes Number :: "'a::len word"
  assumes n: "unat Number = 2 ^ k" and k: "Suc k < LENGTH('a)"
  shows "i \<le> k \<Longrightarrow> LPTF_loop Number pow (2 ^ i) = Some (2 ^ k)"
proof (induction "k - i" arbitrary: i pow)
  case 0
  then have ik: "i = k" by simp
  have step: "LPTF_loop Number pow (2 ^ k) = LPTF_loop Number (2 ^ k) (2 ^ Suc k)"
    using LPTF_loop_two_power_step [OF n order_refl] k by simp
  have u: "unat (2 ^ Suc k :: 'a word) = 2 ^ Suc k" using k by (rule unat_two_power)
  from k have nz: "(2 ^ Suc k :: 'a word) \<noteq> 0" by (rule two_power_nonzero)
  have "\<not> (2 ^ Suc k :: 'a word) \<le> Number"
    by (simp only: word_le_nat_alt u n) simp
  then have "LPTF_loop Number (2 ^ k) (2 ^ Suc k) = Some (2 ^ k)"
    using nz by (intro LPTF_loop_exit) simp_all
  with step ik show ?case by simp
next
  case (Suc d)
  then have lt: "i < k" and d: "d = k - Suc i" by simp_all
  from lt k have "Suc i < LENGTH('a)" by simp
  with lt have "LPTF_loop Number pow (2 ^ i) = LPTF_loop Number (2 ^ i) (2 ^ Suc i)"
    using LPTF_loop_two_power_step [OF n, of i] by simp
  also have "\<dots> = Some (2 ^ k)" using Suc.hyps(1) [OF d] lt by simp
  finally show ?case .
qed

lemma LPTF_two_power:
  "Suc k < LENGTH('a) \<Longrightarrow> LargestPowerOfTwoFactor (2 ^ k :: 'a::len word) = Some (2 ^ k)"
proof -
  assume k: "Suc k < LENGTH('a)"
  then have "unat (2 ^ k :: 'a word) = 2 ^ k" by (simp add: unat_two_power)
  from LPTF_loop_two_power [OF this k, of 0 1] show ?thesis
    by (simp add: LargestPowerOfTwoFactor_def)
qed

lemma LPTF_loop_top_power:
  fixes Number :: "'a::len word"
  assumes n: "unat Number = 2 ^ k" and k: "Suc k = LENGTH('a)"
  shows "Suc i \<le> k \<Longrightarrow> LPTF_loop Number pow (2 ^ i) = Some (2 ^ (k - 1))"
proof (induction "k - Suc i" arbitrary: i pow)
  case 0
  then have ik: "Suc i = k" by simp
  with k have "Suc i < LENGTH('a)" by simp
  then have step: "LPTF_loop Number pow (2 ^ i) = LPTF_loop Number (2 ^ i) (2 ^ k)"
    using LPTF_loop_two_power_step [OF n, of i pow] ik by simp
  have u: "unat (2 ^ k :: 'a word) = 2 ^ k" using k by (simp add: unat_two_power)
  from k have nz: "(2 ^ k :: 'a word) \<noteq> 0" by (intro two_power_nonzero) simp
  have "(2::nat) * 2 ^ k = 2 ^ LENGTH('a)" using k [symmetric] by simp
  then have "\<not> (2 ^ k :: 'a word) \<le> SIZE_MAX - 2 ^ k"
    by (simp add: guard_le_iff u)
  then have "LPTF_loop Number (2 ^ i) (2 ^ k) = Some (2 ^ i)"
    using nz by (intro LPTF_loop_exit) simp_all
  with step ik show ?case by auto
next
  case (Suc d)
  then have lt: "Suc (Suc i) \<le> k" and d: "d = k - Suc (Suc i)" by simp_all
  from lt k have "Suc i < LENGTH('a)" by simp
  with lt have "LPTF_loop Number pow (2 ^ i) = LPTF_loop Number (2 ^ i) (2 ^ Suc i)"
    using LPTF_loop_two_power_step [OF n, of i] by simp
  also have "\<dots> = Some (2 ^ (k - 1))" using Suc.hyps(1) [OF d] lt by simp
  finally show ?case .
qed

lemma LPTF_top_power:
  "2 \<le> LENGTH('a) \<Longrightarrow>
   LargestPowerOfTwoFactor (2 ^ (LENGTH('a) - 1) :: 'a::len word) = Some (2 ^ (LENGTH('a) - 2))"
proof -
  assume L: "2 \<le> LENGTH('a)"
  define k where "k = LENGTH('a) - 1"
  from L have k: "Suc k = LENGTH('a)" and k1: "Suc 0 \<le> k" by (simp_all add: k_def)
  then have "unat (2 ^ k :: 'a word) = 2 ^ k" by (simp add: unat_two_power)
  from LPTF_loop_top_power [OF this k, of 0 1] k1 have
    "LPTF_loop (2 ^ k :: 'a word) 1 1 = Some (2 ^ (k - 1))" by simp
  moreover have "k - 1 = LENGTH('a) - 2" by (simp add: k_def)
  ultimately show ?thesis by (simp add: LargestPowerOfTwoFactor_def k_def)
qed

text \<open>
  C3. The specification says that every power of two is returned unchanged, including
  the largest one the size type holds. The code does not do that for \<open>2 ^ 63\<close> on a
  64-bit \<open>size_t\<close>: when \<open>npow\<close> reaches \<open>2 ^ 63\<close> the guard
  \<open>SIZE_MAX - npow >= npow\<close> fails before \<open>pow = npow\<close> is executed, and the function
  returns \<open>2 ^ 62\<close>, which is not the largest power-of-two factor of the input.
\<close>

theorem LargestPowerOfTwoFactor_top_bit:
  "LargestPowerOfTwoFactor (0x8000000000000000 :: 64 word) = Some 0x4000000000000000"
  unfolding LargestPowerOfTwoFactor_def
  by (simp add: LPTF_loop.simps c_mod_def guard_le_iff)

section \<open>Properties of TailAlignedSize, PaddingSize and TailOffset\<close>

lemma LPTF_nonzero: "LargestPowerOfTwoFactor Number = Some r \<Longrightarrow> r \<noteq> 0"
proof -
  assume a: "LargestPowerOfTwoFactor Number = Some r"
  obtain r' k where "LargestPowerOfTwoFactor Number = Some r'" "unat r' = 2 ^ k"
    using LPTF_Some [of Number] by (elim exE conjE)
  with a have "0 < unat r" by simp
  then show ?thesis by (simp add: unat_gt_0)
qed

lemma TailAlignedSize_zero_arg: "h = 0 \<or> t = 0 \<Longrightarrow> TailAlignedSize h t = Some 0"
  by (simp add: TailAlignedSize_def)

lemma TailAlignedSize_unfold:
  assumes hp: "LargestPowerOfTwoFactor h = Some hp" and tp: "LargestPowerOfTwoFactor t = Some tp"
    and nz: "h \<noteq> 0" "t \<noteq> 0"
  shows "TailAlignedSize h t =
       (if SIZE_MAX - h < t then Some 0
        else if (h + t) mod max hp tp \<noteq> 0 then
           if SIZE_MAX - (h + t) < max hp tp - (h + t) mod max hp tp then Some 0
           else Some (h + t + (max hp tp - (h + t) mod max hp tp))
        else Some (h + t))"
proof -
  have fac: "(if tp < hp then hp else tp) = max hp tp" by (auto simp: max_def)
  have fnz: "max hp tp \<noteq> 0"
    using LPTF_nonzero [OF hp] LPTF_nonzero [OF tp] by (auto simp: max_def)
  show ?thesis
    using nz fnz by (simp add: TailAlignedSize_def hp tp fac c_mod_def Let_def)
qed

lemma TailAlignedSize_nat:
  fixes h t :: "'a::len word"
  assumes hp: "LargestPowerOfTwoFactor h = Some hp" and tp: "LargestPowerOfTwoFactor t = Some tp"
    and nz: "h \<noteq> 0" "t \<noteq> 0"
  defines "f \<equiv> unat (max hp tp)" and "s \<equiv> unat h + unat t"
  shows "\<exists>T. TailAlignedSize h t = Some T \<and>
     (if 2 ^ LENGTH('a) \<le> s \<or> (s mod f \<noteq> 0 \<and> 2 ^ LENGTH('a) \<le> s + (f - s mod f)) then T = 0
      else unat T = (if s mod f = 0 then s else s + (f - s mod f)))"
proof -
  have fac: "(if tp < hp then hp else tp) = max hp tp" by (auto simp: max_def)
  have fnz: "max hp tp \<noteq> 0"
    using LPTF_nonzero [OF hp] LPTF_nonzero [OF tp] by (auto simp: max_def)
  then have fpos: "0 < f" by (simp add: f_def unat_gt_0)
  note unfold = TailAlignedSize_unfold [OF hp tp nz]
  show ?thesis
  proof (cases "2 ^ LENGTH('a) \<le> s")
    case True
    then have "SIZE_MAX - h < t" by (simp add: guard_less_iff s_def)
    then have "TailAlignedSize h t = Some 0" unfolding unfold by simp
    with True show ?thesis by simp
  next
    case False
    then have c1: "\<not> SIZE_MAX - h < t" by (simp add: guard_less_iff s_def)
    from False have sum: "unat (h + t) = s"
      using unat_add_lem [of h t] by (simp add: s_def)
    have rem: "unat ((h + t) mod max hp tp) = s mod f"
      by (simp only: unat_mod sum f_def)
    have rem0: "((h + t) mod max hp tp = 0) = (s mod f = 0)"
      using rem by (simp flip: unat_eq_0)
    show ?thesis
    proof (cases "s mod f = 0")
      case True
      then have "\<not> (h + t) mod max hp tp \<noteq> 0" by (simp only: rem0)
      with c1 have "TailAlignedSize h t = Some (h + t)" unfolding unfold by simp
      with True False sum show ?thesis by simp
    next
      case nrem: False
      then have c2: "(h + t) mod max hp tp \<noteq> 0" by (simp only: rem0 not_False_eq_True)
      have "s mod f < f" using fpos by simp
      then have "(h + t) mod max hp tp \<le> max hp tp"
        by (simp only: word_le_nat_alt rem f_def less_imp_le)
      then have pad: "unat (max hp tp - (h + t) mod max hp tp) = f - s mod f"
        by (simp only: unat_sub rem f_def)
      have c3: "(SIZE_MAX - (h + t) < max hp tp - (h + t) mod max hp tp)
                  = (2 ^ LENGTH('a) \<le> s + (f - s mod f))"
        by (simp only: guard_less_iff sum pad)
      show ?thesis
      proof (cases "2 ^ LENGTH('a) \<le> s + (f - s mod f)")
        case True
        with c3 have "SIZE_MAX - (h + t) < max hp tp - (h + t) mod max hp tp" by simp
        with c1 c2 have "TailAlignedSize h t = Some 0"
          unfolding unfold by simp
        with True nrem show ?thesis by simp
      next
        case nov: False
        then have "unat (h + t + (max hp tp - (h + t) mod max hp tp)) = s + (f - s mod f)"
          using unat_add_lem [of "h + t" "max hp tp - (h + t) mod max hp tp"]
          by (simp only: sum pad not_le)
        moreover from c3 nov
        have "\<not> SIZE_MAX - (h + t) < max hp tp - (h + t) mod max hp tp" by simp
        with c1 c2
        have "TailAlignedSize h t = Some (h + t + (max hp tp - (h + t) mod max hp tp))"
          unfolding unfold by simp
        ultimately show ?thesis using False nrem nov by simp
      qed
    qed
  qed
qed

lemma round_up_dvd:
  fixes f s :: nat
  assumes "0 < f"
  shows "f dvd s + (f - s mod f)"
proof -
  have lt: "s mod f < f" using assms by simp
  have eq: "f * (s div f) + s mod f = s" by (rule mult_div_mod_eq)
  have "s + (f - s mod f) = f * (s div f) + f" using eq lt by linarith
  also have "\<dots> = f * (s div f + 1)" by simp
  finally show ?thesis by (simp only: dvd_triv_left)
qed

lemma round_up_least:
  fixes f s T' :: nat
  assumes "s mod f \<noteq> 0" and "f dvd T'" and "s \<le> T'" and "0 < f"
  shows "s + (f - s mod f) \<le> T'"
proof -
  have lt: "s mod f < f" using assms(4) by simp
  have eq: "f * (s div f) + s mod f = s" by (rule mult_div_mod_eq)
  from assms(2) obtain q where q: "T' = f * q" by (auto simp: dvd_def)
  have "f * (s div f) < s" using assms(1) eq by linarith
  moreover have "s \<le> f * q" using assms(3) q by simp
  ultimately have "f * (s div f) < f * q" by linarith
  then have "s div f < q" by simp
  then have "s div f + 1 \<le> q" by simp
  then have "f * (s div f + 1) \<le> f * q" by (rule mult_le_mono2)
  moreover have "s + (f - s mod f) = f * (s div f) + f" using eq lt by linarith
  then have "s + (f - s mod f) = f * (s div f + 1)" by simp
  ultimately show ?thesis using q by simp
qed

lemma TailAlignedSize_total: "\<exists>T. TailAlignedSize h t = Some T"
proof (cases "h = 0 \<or> t = 0")
  case True
  then show ?thesis by (simp add: TailAlignedSize_zero_arg)
next
  case False
  obtain hp tp where "LargestPowerOfTwoFactor h = Some hp" "LargestPowerOfTwoFactor t = Some tp"
    using LPTF_Some [of h] LPTF_Some [of t] by (elim exE conjE)
  with False TailAlignedSize_nat [of h hp t tp] show ?thesis by blast
qed

lemma TAS_4_8: "TailAlignedSize (4 :: 64 word) 8 = Some 16"
  by (simp add: TailAlignedSize_def LargestPowerOfTwoFactor_def LPTF_loop.simps c_mod_def
      guard_le_iff guard_less_iff Let_def)

lemma TAS_3_5: "TailAlignedSize (3 :: 64 word) 5 = Some 8"
  by (simp add: TailAlignedSize_def LargestPowerOfTwoFactor_def LPTF_loop.simps c_mod_def
      guard_le_iff guard_less_iff Let_def)

lemma TAS_overflow_pad: "TailAlignedSize (0xC000000000000000 :: 64 word) 1 = Some 0"
  by (simp add: TailAlignedSize_def LargestPowerOfTwoFactor_def LPTF_loop.simps c_mod_def
      guard_le_iff guard_less_iff Let_def)

text \<open>
  C1. For nonzero \<open>HeadSize\<close> and \<open>TailSize\<close> with a nonzero result \<open>T\<close> of
  \<open>TailAlignedSize\<close>: with the alignment factor \<open>max hpow tpow\<close> of the two largest
  power-of-two factors, \<open>T\<close> is a multiple of the factor (as \<open>T % factor == 0\<close> and as
  divisibility of the values), \<open>T\<close> is at least \<open>HeadSize + TailSize\<close> (the sum of the
  values, without wrap-around), and \<open>T\<close> is the smallest such value: every multiple
  \<open>T'\<close> of the factor that is at least the sum is at least \<open>T\<close>.
\<close>

theorem TailAlignedSize_least_multiple:
  fixes HeadSize TailSize :: "'a::len word"
  assumes "HeadSize \<noteq> 0" and "TailSize \<noteq> 0"
    and "TailAlignedSize HeadSize TailSize = Some T" and "T \<noteq> 0"
  shows "\<exists>hpow tpow.
           LargestPowerOfTwoFactor HeadSize = Some hpow \<and>
           LargestPowerOfTwoFactor TailSize = Some tpow \<and>
           T mod max hpow tpow = 0 \<and>
           unat (max hpow tpow) dvd unat T \<and>
           unat HeadSize + unat TailSize \<le> unat T \<and>
           (\<forall>T'. unat (max hpow tpow) dvd T' \<and> unat HeadSize + unat TailSize \<le> T'
                  \<longrightarrow> unat T \<le> T')"
proof -
  obtain hp kh where hp: "LargestPowerOfTwoFactor HeadSize = Some hp" "unat hp = 2 ^ kh"
    using LPTF_Some [of HeadSize] by (elim exE conjE)
  obtain tp kt where tp: "LargestPowerOfTwoFactor TailSize = Some tp" "unat tp = 2 ^ kt"
    using LPTF_Some [of TailSize] by (elim exE conjE)
  define f where "f = unat (max hp tp)"
  define s where "s = unat HeadSize + unat TailSize"
  have fnz: "max hp tp \<noteq> 0"
    using LPTF_nonzero [OF hp(1)] LPTF_nonzero [OF tp(1)] by (auto simp: max_def)
  then have fpos: "0 < f" by (simp add: f_def unat_gt_0)
  from TailAlignedSize_nat [OF hp(1) tp(1) assms(1,2)] assms(3,4)
  have T: "unat T = (if s mod f = 0 then s else s + (f - s mod f))"
    by (auto simp: f_def s_def split: if_splits)
  have dvd: "f dvd unat T"
    using T round_up_dvd [OF fpos, of s] by (auto simp: dvd_eq_mod_eq_0)
  have ge: "s \<le> unat T" using T by (simp split: if_splits)
  have least: "\<forall>T'. f dvd T' \<and> s \<le> T' \<longrightarrow> unat T \<le> T'"
    using T round_up_least [of s f, OF _ _ _ fpos] by (auto split: if_splits)
  have "T mod max hp tp = 0"
    using dvd word_mod_0_dvd [OF fnz, of T] by (simp only: f_def)
  show ?thesis
  proof (intro exI conjI)
    show "LargestPowerOfTwoFactor HeadSize = Some hp" by (fact hp(1))
    show "LargestPowerOfTwoFactor TailSize = Some tp" by (fact tp(1))
    show "T mod max hp tp = 0" by fact
    show "unat (max hp tp) dvd unat T" using dvd by (simp only: f_def)
    show "unat HeadSize + unat TailSize \<le> unat T" using ge by (simp only: s_def)
    show "\<forall>T'. unat (max hp tp) dvd T' \<and> unat HeadSize + unat TailSize \<le> T' \<longrightarrow> unat T \<le> T'"
      using least by (simp only: f_def s_def)
  qed
qed

text \<open>The theorem at \<open>TailAlignedSize(4, 8) = 16\<close> on 64 bits.\<close>

theorem TailAlignedSize_least_multiple_witness:
  "(4 :: 64 word) \<noteq> 0 \<and> (8 :: 64 word) \<noteq> 0 \<and>
   TailAlignedSize (4 :: 64 word) 8 = Some 16 \<and> (16 :: 64 word) \<noteq> 0 \<and>
   (\<exists>hpow tpow.
           LargestPowerOfTwoFactor (4 :: 64 word) = Some hpow \<and>
           LargestPowerOfTwoFactor (8 :: 64 word) = Some tpow \<and>
           (16 :: 64 word) mod max hpow tpow = 0 \<and>
           unat (max hpow tpow) dvd unat (16 :: 64 word) \<and>
           unat (4 :: 64 word) + unat (8 :: 64 word) \<le> unat (16 :: 64 word) \<and>
           (\<forall>T'. unat (max hpow tpow) dvd T' \<and> unat (4 :: 64 word) + unat (8 :: 64 word) \<le> T'
                  \<longrightarrow> unat (16 :: 64 word) \<le> T'))"
proof -
  have a: "(4 :: 64 word) \<noteq> 0" and b: "(8 :: 64 word) \<noteq> 0" and c: "(16 :: 64 word) \<noteq> 0"
    by simp_all
  show ?thesis
    using a b c TAS_4_8 TailAlignedSize_least_multiple [OF a b TAS_4_8 c] by (intro conjI)
qed

lemma SIZE_MAX_less_iff: "(unat (SIZE_MAX :: 'a::len word) < x) = (2 ^ LENGTH('a) \<le> x)"
proof -
  have "(0::nat) < 2 ^ LENGTH('a)" by simp
  then show ?thesis unfolding unat_SIZE_MAX by linarith
qed

lemma TailAlignedSize_nonzero:
  fixes h t :: "'a::len word"
  assumes "TailAlignedSize h t = Some T" and "T \<noteq> 0"
  shows "h \<noteq> 0" and "t \<noteq> 0" and "unat h + unat t \<le> unat T" and "2 \<le> unat h + unat t"
proof -
  from assms show nz: "h \<noteq> 0" "t \<noteq> 0"
    by (auto simp: TailAlignedSize_def)
  obtain hp tp where p: "LargestPowerOfTwoFactor h = Some hp" "LargestPowerOfTwoFactor t = Some tp"
    using LPTF_Some [of h] LPTF_Some [of t] by (elim exE conjE)
  from TailAlignedSize_nat [OF p nz] assms
  show "unat h + unat t \<le> unat T"
    by (auto split: if_splits)
  from nz have "0 < unat h" "0 < unat t" by (simp_all add: unat_gt_0)
  then show "2 \<le> unat h + unat t" by linarith
qed

text \<open>
  C2. \<open>TailAlignedSize\<close> always returns a value \<open>T\<close>, and \<open>T\<close> is 0 if and only if
  \<open>HeadSize\<close> is 0, or \<open>TailSize\<close> is 0, or the sum of the two values exceeds
  \<open>SIZE_MAX\<close>, or the sum is not a multiple of the alignment factor and the sum plus the
  padding \<open>factor - sum mod factor\<close> exceeds \<open>SIZE_MAX\<close>. Every nonzero result is at
  least the sum of the two sizes, which is at least 2.
\<close>

theorem TailAlignedSize_zero_iff:
  fixes h t :: "'a::len word"
  shows "\<exists>T. TailAlignedSize h t = Some T \<and>
     (T = 0 \<longleftrightarrow>
        (h = 0 \<or> t = 0 \<or> unat (SIZE_MAX :: 'a word) < unat h + unat t \<or>
         (\<exists>hpow tpow. LargestPowerOfTwoFactor h = Some hpow \<and>
              LargestPowerOfTwoFactor t = Some tpow \<and>
              (unat h + unat t) mod unat (max hpow tpow) \<noteq> 0 \<and>
              unat (SIZE_MAX :: 'a word) < unat h + unat t +
                 (unat (max hpow tpow) - (unat h + unat t) mod unat (max hpow tpow))))) \<and>
     (T \<noteq> 0 \<longrightarrow> unat h + unat t \<le> unat T \<and> 2 \<le> unat h + unat t)"
proof (cases "h = 0 \<or> t = 0")
  case True
  then have z: "TailAlignedSize h t = Some 0" by (rule TailAlignedSize_zero_arg)
  show ?thesis
  proof (intro exI [of _ "0 :: 'a word"] conjI)
    show "TailAlignedSize h t = Some 0" by (fact z)
    show "((0 :: 'a word) = 0) \<longleftrightarrow>
        (h = 0 \<or> t = 0 \<or> unat (SIZE_MAX :: 'a word) < unat h + unat t \<or>
         (\<exists>hpow tpow. LargestPowerOfTwoFactor h = Some hpow \<and>
              LargestPowerOfTwoFactor t = Some tpow \<and>
              (unat h + unat t) mod unat (max hpow tpow) \<noteq> 0 \<and>
              unat (SIZE_MAX :: 'a word) < unat h + unat t +
                 (unat (max hpow tpow) - (unat h + unat t) mod unat (max hpow tpow))))"
      using True by blast
    show "(0 :: 'a word) \<noteq> 0 \<longrightarrow> unat h + unat t \<le> unat (0 :: 'a word) \<and> 2 \<le> unat h + unat t"
      by simp
  qed
next
  case False
  then have nz: "h \<noteq> 0" "t \<noteq> 0" by simp_all
  obtain hp tp where p: "LargestPowerOfTwoFactor h = Some hp" "LargestPowerOfTwoFactor t = Some tp"
    using LPTF_Some [of h] LPTF_Some [of t] by (elim exE conjE)
  define f where "f = unat (max hp tp)"
  define s where "s = unat h + unat t"
  from TailAlignedSize_nat [OF p nz] obtain T where
    T: "TailAlignedSize h t = Some T"
       "if 2 ^ LENGTH('a) \<le> s \<or> (s mod f \<noteq> 0 \<and> 2 ^ LENGTH('a) \<le> s + (f - s mod f)) then T = 0
        else unat T = (if s mod f = 0 then s else s + (f - s mod f))"
    unfolding f_def s_def by (elim exE conjE)
  from nz have "0 < unat h" "0 < unat t" by (simp_all add: unat_gt_0)
  then have s2: "2 \<le> s" unfolding s_def by linarith
  have iff: "T = 0 \<longleftrightarrow>
      (2 ^ LENGTH('a) \<le> s \<or> (s mod f \<noteq> 0 \<and> 2 ^ LENGTH('a) \<le> s + (f - s mod f)))"
  proof (cases "2 ^ LENGTH('a) \<le> s \<or> (s mod f \<noteq> 0 \<and> 2 ^ LENGTH('a) \<le> s + (f - s mod f))")
    case True
    with T(2) show ?thesis by simp
  next
    case False
    with T(2) have "s \<le> unat T" by (simp split: if_splits)
    with s2 have "0 < unat T" by linarith
    then have "T \<noteq> 0" by (simp add: unat_gt_0)
    with False show ?thesis by simp
  qed
  have ex: "(\<exists>hpow tpow. LargestPowerOfTwoFactor h = Some hpow \<and>
              LargestPowerOfTwoFactor t = Some tpow \<and>
              (unat h + unat t) mod unat (max hpow tpow) \<noteq> 0 \<and>
              unat (SIZE_MAX :: 'a word) < unat h + unat t +
                 (unat (max hpow tpow) - (unat h + unat t) mod unat (max hpow tpow)))
        \<longleftrightarrow> (s mod f \<noteq> 0 \<and> 2 ^ LENGTH('a) \<le> s + (f - s mod f))"
    by (simp add: p SIZE_MAX_less_iff f_def s_def)
  have ge: "T \<noteq> 0 \<longrightarrow> unat h + unat t \<le> unat T \<and> 2 \<le> unat h + unat t"
    using TailAlignedSize_nonzero(3,4) [OF T(1)] by simp
  show ?thesis
  proof (intro exI conjI)
    show "TailAlignedSize h t = Some T" by (fact T(1))
    show "T = 0 \<longleftrightarrow>
        (h = 0 \<or> t = 0 \<or> unat (SIZE_MAX :: 'a word) < unat h + unat t \<or>
         (\<exists>hpow tpow. LargestPowerOfTwoFactor h = Some hpow \<and>
              LargestPowerOfTwoFactor t = Some tpow \<and>
              (unat h + unat t) mod unat (max hpow tpow) \<noteq> 0 \<and>
              unat (SIZE_MAX :: 'a word) < unat h + unat t +
                 (unat (max hpow tpow) - (unat h + unat t) mod unat (max hpow tpow))))"
      unfolding ex iff using nz by (simp add: SIZE_MAX_less_iff s_def)
    show "T \<noteq> 0 \<longrightarrow> unat h + unat t \<le> unat T \<and> 2 \<le> unat h + unat t" by (fact ge)
  qed
qed

text \<open>
  The theorem at \<open>(4, 8)\<close>, where the result is nonzero, and at \<open>(3 * 2 ^ 62, 1)\<close>, where
  the sum fits and the padding overflows.
\<close>

theorem TailAlignedSize_zero_iff_witness:
  "(\<exists>T. TailAlignedSize (4 :: 64 word) 8 = Some T \<and> T \<noteq> 0 \<and>
        unat (4 :: 64 word) + unat (8 :: 64 word) \<le> unat T) \<and>
   (\<exists>T. TailAlignedSize (0xC000000000000000 :: 64 word) 1 = Some T \<and> T = 0 \<and>
        ((0xC000000000000000 :: 64 word) = 0 \<or> (1 :: 64 word) = 0 \<or>
         unat (SIZE_MAX :: 64 word) < unat (0xC000000000000000 :: 64 word) + unat (1 :: 64 word) \<or>
         (\<exists>hpow tpow. LargestPowerOfTwoFactor (0xC000000000000000 :: 64 word) = Some hpow \<and>
              LargestPowerOfTwoFactor (1 :: 64 word) = Some tpow \<and>
              (unat (0xC000000000000000 :: 64 word) + unat (1 :: 64 word)) mod unat (max hpow tpow) \<noteq> 0 \<and>
              unat (SIZE_MAX :: 64 word) < unat (0xC000000000000000 :: 64 word) + unat (1 :: 64 word) +
                 (unat (max hpow tpow) - (unat (0xC000000000000000 :: 64 word) + unat (1 :: 64 word))
                     mod unat (max hpow tpow)))))"
  using TailAlignedSize_zero_iff [of "4 :: 64 word" 8] TailAlignedSize_zero_iff [of "0xC000000000000000 :: 64 word" 1]
    TAS_4_8 TAS_overflow_pad
  by auto

text \<open>
  C5. With \<open>T\<close> the result of \<open>TailAlignedSize\<close>: when \<open>T\<close> is nonzero, \<open>PaddingSize\<close>
  returns \<open>T - TailSize - HeadSize\<close>, the subtraction does not wrap, and the value differs
  from \<open>SIZE_MAX\<close>; \<open>PaddingSize\<close> returns \<open>SIZE_MAX\<close> exactly when \<open>T\<close> is 0.
\<close>

theorem PaddingSize_sentinel:
  fixes h t :: "'a::len word"
  shows "\<exists>T. TailAlignedSize h t = Some T \<and>
     (T \<noteq> 0 \<longrightarrow> PaddingSize h t = Some (T - t - h) \<and>
                 unat (T - t - h) = unat T - unat t - unat h \<and>
                 T - t - h \<noteq> SIZE_MAX) \<and>
     (PaddingSize h t = Some SIZE_MAX \<longleftrightarrow> T = 0)"
proof -
  obtain T where T: "TailAlignedSize h t = Some T"
    using TailAlignedSize_total [of h t] by (elim exE)
  have pad: "PaddingSize h t = (if T = 0 then Some SIZE_MAX else Some (T - t - h))"
    by (simp add: PaddingSize_def T)
  have nz: "T \<noteq> 0 \<longrightarrow> unat (T - t - h) = unat T - unat t - unat h \<and> T - t - h \<noteq> SIZE_MAX"
  proof
    assume "T \<noteq> 0"
    note f = TailAlignedSize_nonzero [OF T this]
    from f(3) have "t \<le> T" by (simp add: word_le_nat_alt)
    then have u1: "unat (T - t) = unat T - unat t" by (rule unat_sub)
    with f(3) have "h \<le> T - t" by (simp add: word_le_nat_alt)
    then have "unat (T - t - h) = unat (T - t) - unat h" by (rule unat_sub)
    with u1 have u2: "unat (T - t - h) = unat T - unat t - unat h" by simp
    have "unat T < 2 ^ LENGTH('a)" by simp
    with u2 f(3,4) have "unat (T - t - h) < 2 ^ LENGTH('a) - 1" by linarith
    then have "unat (T - t - h) \<noteq> unat (SIZE_MAX :: 'a word)" by (simp add: unat_SIZE_MAX)
    then have "T - t - h \<noteq> SIZE_MAX" by auto
    with u2 show "unat (T - t - h) = unat T - unat t - unat h \<and> T - t - h \<noteq> SIZE_MAX" by simp
  qed
  show ?thesis
  proof (intro exI conjI)
    show "TailAlignedSize h t = Some T" by (fact T)
    show "T \<noteq> 0 \<longrightarrow> PaddingSize h t = Some (T - t - h) \<and>
                 unat (T - t - h) = unat T - unat t - unat h \<and>
                 T - t - h \<noteq> SIZE_MAX"
      using nz pad by simp
    show "PaddingSize h t = Some SIZE_MAX \<longleftrightarrow> T = 0"
      using nz pad by auto
  qed
qed

lemma Pad_4_8: "PaddingSize (4 :: 64 word) 8 = Some 4"
  by (simp add: PaddingSize_def TAS_4_8)

text \<open>The theorem at \<open>(4, 8)\<close>, with padding 4, and at the failing input \<open>(0, 8)\<close>.\<close>

theorem PaddingSize_sentinel_witness:
  "(\<exists>T. TailAlignedSize (4 :: 64 word) 8 = Some T \<and> T \<noteq> 0 \<and>
         PaddingSize (4 :: 64 word) 8 = Some (T - 8 - 4) \<and> T - 8 - 4 \<noteq> SIZE_MAX) \<and>
   PaddingSize (4 :: 64 word) 8 = Some 4 \<and>
   PaddingSize (0 :: 64 word) 8 = Some SIZE_MAX"
  using PaddingSize_sentinel [of "4 :: 64 word" 8] PaddingSize_sentinel [of "0 :: 64 word" 8] TAS_4_8 Pad_4_8
    TailAlignedSize_zero_arg [of "0 :: 64 word" 8]
  by auto

text \<open>
  C6. For nonzero \<open>h\<close> and \<open>t\<close> with a nonzero total \<open>T = TailAlignedSize(h, t)\<close>:
  \<open>TailOffset(T, t)\<close> is \<open>T - t\<close>, the subtraction does not wrap, the offset is at least
  \<open>h\<close>, and the head region \<open>[0, h)\<close> and the tail region \<open>[TailOffset(T, t), T)\<close> are
  disjoint.
\<close>

theorem TailOffset_after_head:
  fixes h t :: "'a::len word"
  assumes "h \<noteq> 0" and "t \<noteq> 0" and "TailAlignedSize h t = Some T" and "T \<noteq> 0"
  shows "TailOffset T t = T - t \<and>
         unat (TailOffset T t) = unat T - unat t \<and>
         h \<le> TailOffset T t \<and>
         {0 ..< unat h} \<inter> {unat (TailOffset T t) ..< unat T} = {}"
proof -
  note f = TailAlignedSize_nonzero [OF assms(3,4)]
  from f(3) have "t \<le> T" by (simp add: word_le_nat_alt)
  then have u: "unat (T - t) = unat T - unat t" by (rule unat_sub)
  with f(3) have le: "h \<le> T - t" by (simp add: word_le_nat_alt)
  then have "unat h \<le> unat (T - t)" by (simp add: word_le_nat_alt)
  then have "{0 ..< unat h} \<inter> {unat (T - t) ..< unat T} = {}" by auto
  with u le show ?thesis by (simp add: TailOffset_def)
qed

text \<open>The theorem at \<open>h = 4\<close>, \<open>t = 8\<close>, \<open>T = 16\<close>: the tail starts at offset 8.\<close>

theorem TailOffset_after_head_witness:
  "(4 :: 64 word) \<noteq> 0 \<and> (8 :: 64 word) \<noteq> 0 \<and> TailAlignedSize (4 :: 64 word) 8 = Some 16 \<and>
   (16 :: 64 word) \<noteq> 0 \<and> TailOffset (16 :: 64 word) 8 = 16 - 8 \<and> TailOffset (16 :: 64 word) 8 = 8 \<and>
   (4 :: 64 word) \<le> TailOffset 16 8 \<and>
   {0 ..< unat (4 :: 64 word)} \<inter> {unat (TailOffset (16 :: 64 word) 8) ..< unat (16 :: 64 word)} = {}"
proof -
  have a: "(4 :: 64 word) \<noteq> 0" and b: "(8 :: 64 word) \<noteq> 0" and c: "(16 :: 64 word) \<noteq> 0"
    by simp_all
  have "TailOffset (16 :: 64 word) 8 = 8" by (simp add: TailOffset_def)
  then show ?thesis
    using a b c TAS_4_8 TailOffset_after_head [OF a b TAS_4_8 c] by simp
qed

text \<open>
  C10. \<open>TailAlignedSize\<close> and \<open>PaddingSize\<close> are symmetric in their two arguments, for
  all inputs, the failing ones included.
\<close>

theorem TailAlignedSize_commute:
  "TailAlignedSize h t = TailAlignedSize t h \<and> PaddingSize h t = PaddingSize t h"
proof -
  have sym: "TailAlignedSize h t = TailAlignedSize t h"
  proof (cases "h = 0 \<or> t = 0")
    case True
    then show ?thesis by (auto simp: TailAlignedSize_zero_arg)
  next
    case False
    then have nz: "h \<noteq> 0" "t \<noteq> 0" by simp_all
    obtain hp tp where p: "LargestPowerOfTwoFactor h = Some hp" "LargestPowerOfTwoFactor t = Some tp"
      using LPTF_Some [of h] LPTF_Some [of t] by (elim exE conjE)
    have g: "(SIZE_MAX - h < t) = (SIZE_MAX - t < h)"
      by (simp add: guard_less_iff add.commute)
    show ?thesis
      unfolding TailAlignedSize_unfold [OF p nz] TailAlignedSize_unfold [OF p(2,1) nz(2,1)]
      by (simp only: g add.commute [of t h] max.commute [of tp hp])
  qed
  have "PaddingSize h t = PaddingSize t h"
  proof (cases "TailAlignedSize t h")
    case None
    then show ?thesis by (simp add: PaddingSize_def sym)
  next
    case (Some T)
    have "T - t - h = T - h - t" by simp
    then show ?thesis by (simp add: PaddingSize_def sym Some)
  qed
  with sym show ?thesis by simp
qed

section \<open>Properties of SortSizesDescending\<close>

subsection \<open>Cutting memory into elements\<close>

lemma length_elements: "length (elements n S base) = n"
  by (induction n arbitrary: base) simp_all

lemma elements_concat:
  "length ys = n \<Longrightarrow> \<forall>y\<in>set ys. length y = S \<Longrightarrow> elements n S (concat ys @ rest) = ys"
proof (induction ys arbitrary: n)
  case Nil
  then show ?case by simp
next
  case (Cons y ys)
  then obtain m where n: "n = Suc m" and m: "length ys = m" by (cases n) auto
  from Cons.prems have "length y = S" and rest: "\<forall>y\<in>set ys. length y = S" by simp_all
  then show ?case using Cons.IH [OF m rest] by (simp add: n)
qed

lemma elements_length:
  "n * S \<le> length base \<Longrightarrow> e \<in> set (elements n S base) \<Longrightarrow> length e = S"
proof (induction n arbitrary: base)
  case 0
  then show ?case by simp
next
  case (Suc n)
  from Suc.prems(1) have S: "S \<le> length base" and r: "n * S \<le> length (drop S base)"
    by simp_all
  from Suc.prems(2) have "e = take S base \<or> e \<in> set (elements n S (drop S base))" by simp
  then show ?case
  proof
    assume "e = take S base"
    with S show ?thesis by simp
  next
    assume "e \<in> set (elements n S (drop S base))"
    with Suc.IH [OF r] show ?thesis by simp
  qed
qed

lemma length_concat_uniform:
  "\<forall>y\<in>set ys. length y = S \<Longrightarrow> length (concat ys) = length ys * S"
  by (induction ys) simp_all

lemma elements_numeral:
  "elements (numeral k) width base =
     take width base # elements (pred_numeral k) width (drop width base)"
  by (simp add: numeral_eq_Suc)

subsection \<open>The comparison function\<close>

lemma size_sorter_le_0:
  "(size_sorter load_size a b \<le> 0) = (record_key load_size b \<le> record_key load_size a)"
  by (auto simp: size_sorter_def Let_def)

lemma size_sorter_less_0:
  "(size_sorter load_size a b < 0) = (record_key load_size b < record_key load_size a)"
  by (auto simp: size_sorter_def Let_def)

lemma size_sorter_greater_0:
  "(0 < size_sorter load_size a b) = (record_key load_size a < record_key load_size b)"
  by (auto simp: size_sorter_def Let_def)

lemma total_ordering_size_sorter: "total_ordering (size_sorter load_size) A"
  unfolding total_ordering_def size_sorter_le_0 size_sorter_less_0 size_sorter_greater_0
  by auto

subsection \<open>Insertion sort keeps the promise of the library\<close>

lemma mset_insert_by: "mset (insert_by compar x ys) = add_mset x (mset ys)"
  by (induction ys) simp_all

lemma mset_insertion_sort: "mset (insertion_sort compar xs) = mset xs"
  by (induction xs) (simp_all add: mset_insert_by)

lemma set_insert_by: "set (insert_by compar x ys) = insert x (set ys)"
  using mset_insert_by [of compar x ys, THEN arg_cong, of set_mset] by simp

lemma set_insertion_sort: "set (insertion_sort compar xs) = set xs"
  using mset_insertion_sort [of compar xs, THEN arg_cong, of set_mset] by simp

lemma total_ordering_subset: "total_ordering compar A \<Longrightarrow> B \<subseteq> A \<Longrightarrow> total_ordering compar B"
  unfolding total_ordering_def by blast

lemma sorted_insert_by:
  assumes "total_ordering compar (insert x (set ys))"
    and "sorted_wrt (\<lambda>a b. compar a b \<le> 0) ys"
  shows "sorted_wrt (\<lambda>a b. compar a b \<le> 0) (insert_by compar x ys)"
  using assms
proof (induction ys)
  case Nil
  then show ?case by simp
next
  case (Cons y ys)
  let ?A = "insert x (set (y # ys))"
  from Cons.prems(1) have
    anti: "\<And>a b. a \<in> ?A \<Longrightarrow> b \<in> ?A \<Longrightarrow> (compar a b < 0) = (0 < compar b a)" and
    trans: "\<And>a b c. a \<in> ?A \<Longrightarrow> b \<in> ?A \<Longrightarrow> c \<in> ?A \<Longrightarrow>
               compar a b \<le> 0 \<Longrightarrow> compar b c \<le> 0 \<Longrightarrow> compar a c \<le> 0"
    unfolding total_ordering_def by blast+
  from Cons.prems(2) have y_le: "\<forall>z\<in>set ys. compar y z \<le> 0"
    and sorted_ys: "sorted_wrt (\<lambda>a b. compar a b \<le> 0) ys" by simp_all
  show ?case
  proof (cases "compar x y \<le> 0")
    case True
    have "\<forall>z\<in>set ys. compar x z \<le> 0"
    proof
      fix z assume z: "z \<in> set ys"
      with y_le have "compar y z \<le> 0" by simp
      with True z show "compar x z \<le> 0" using trans [of x y z] by simp
    qed
    with True Cons.prems(2) show ?thesis by simp
  next
    case False
    then have "0 < compar x y" by simp
    then have "compar y x < 0" using anti [of y x] by simp
    then have yx: "compar y x \<le> 0" by simp
    have "total_ordering compar (insert x (set ys))"
      using Cons.prems(1) by (rule total_ordering_subset) auto
    from Cons.IH [OF this sorted_ys]
    have "sorted_wrt (\<lambda>a b. compar a b \<le> 0) (insert_by compar x ys)" .
    with False yx y_le show ?thesis by (simp add: set_insert_by)
  qed
qed

lemma sorted_insertion_sort:
  "total_ordering compar (set xs) \<Longrightarrow>
   sorted_wrt (\<lambda>a b. compar a b \<le> 0) (insertion_sort compar xs)"
proof (induction xs)
  case Nil
  then show ?case by simp
next
  case (Cons x xs)
  have "total_ordering compar (set xs)"
    using Cons.prems by (rule total_ordering_subset) auto
  then have "sorted_wrt (\<lambda>a b. compar a b \<le> 0) (insertion_sort compar xs)" by (rule Cons.IH)
  moreover have "total_ordering compar (insert x (set (insertion_sort compar xs)))"
    using Cons.prems by (simp add: set_insertion_sort)
  ultimately show ?case by (simp add: sorted_insert_by)
qed

lemma insertion_sort_contract: "qsort_contract insertion_sort"
  unfolding qsort_contract_def by (simp add: mset_insertion_sort sorted_insertion_sort)

lemma sizeof_size_t_64: "(sizeof_size_t :: 64 word) = 8"
  by (simp add: sizeof_size_t_def)

lemma sort_example:
  "SortSizesDescending insertion_sort (load_le :: byte list \<Rightarrow> 64 word)
     (Some [2, 0, 0, 0, 0, 0, 0, 0, 97,   8, 0, 0, 0, 0, 0, 0, 0, 98,   4, 0, 0, 0, 0, 0, 0, 0, 99])
     3 9
   = Some [8, 0, 0, 0, 0, 0, 0, 0, 98,   4, 0, 0, 0, 0, 0, 0, 0, 99,   2, 0, 0, 0, 0, 0, 0, 0, 97]"
  by (simp add: SortSizesDescending_def sizeof_size_t_64 qsort_def elements_numeral
      size_sorter_def record_key_def Let_def)

lemma keys_example:
  "map (record_key (load_le :: byte list \<Rightarrow> 64 word))
     (elements 3 9 [8, 0, 0, 0, 0, 0, 0, 0, 98,   4, 0, 0, 0, 0, 0, 0, 0, 99,   2, 0, 0, 0, 0, 0, 0, 0, 97])
   = [8, 4, 2]"
  by (simp add: elements_numeral record_key_def)

text \<open>
  SortSizesDescending_noop. \<open>SortSizesDescending\<close> leaves the array as it is, without calling the library sort,
  when the array pointer is null, or \<open>Count\<close> is 0, or \<open>Size\<close> is smaller than
  \<open>sizeof (size_t)\<close>: the memory after the call is the memory before it, whatever the
  library sort would do.
\<close>

theorem SortSizesDescending_noop:
  "Array = None \<or> Count = 0 \<or> Size < sizeof_size_t \<Longrightarrow>
   SortSizesDescending libc_sort load_size Array Count Size = Array"
  by (simp add: SortSizesDescending_def)

text \<open>
  The theorem on a 64-bit platform at a null pointer, at \<open>Count = 0\<close>, and at records of
  4 bytes, fewer than the 8 of a \<open>size_t\<close>.
\<close>

theorem SortSizesDescending_noop_witness:
  "SortSizesDescending insertion_sort (load_le :: byte list \<Rightarrow> 64 word) None 3 9 = None \<and>
   SortSizesDescending insertion_sort (load_le :: byte list \<Rightarrow> 64 word)
      (Some [2, 0, 0, 0, 0, 0, 0, 0, 97, 8, 0, 0, 0, 0, 0, 0, 0, 98]) 0 9
     = Some [2, 0, 0, 0, 0, 0, 0, 0, 97, 8, 0, 0, 0, 0, 0, 0, 0, 98] \<and>
   (4 :: 64 word) < sizeof_size_t \<and>
   SortSizesDescending insertion_sort (load_le :: byte list \<Rightarrow> 64 word)
      (Some [2, 0, 0, 0, 8, 0, 0, 0]) 2 4
     = Some [2, 0, 0, 0, 8, 0, 0, 0]"
proof -
  have lt: "(4 :: 64 word) < sizeof_size_t" by (simp add: sizeof_size_t_64)
  show ?thesis
    using lt
      SortSizesDescending_noop [of None "3 :: 64 word" 9 insertion_sort load_le]
      SortSizesDescending_noop [of "Some [2, 0, 0, 0, 0, 0, 0, 0, 97, 8, 0, 0, 0, 0, 0, 0, 0, 98]" "0 :: 64 word" 9
             insertion_sort load_le]
      SortSizesDescending_noop [of "Some [2, 0, 0, 0, 8, 0, 0, 0]" "2 :: 64 word" 4 insertion_sort load_le]
    by simp
qed

text \<open>
  SortSizesDescending_sorts. Let the array be non-null and hold \<open>Count\<close> records of \<open>Size\<close> bytes, with
  \<open>Count\<close> at least 1 and \<open>Size\<close> at least \<open>sizeof (size_t)\<close>, and let the library sort
  keep the promise of the C standard. Then after \<open>SortSizesDescending\<close> the memory has
  its length, its records are a rearrangement of the records before (whole records, so the
  bytes behind a key travel with that key), the keys read at offset 0 descend, and the
  bytes behind the array are unchanged. The comparison function is determined by the two
  keys alone, and a key is determined by the first \<open>sizeof (size_t)\<close> bytes of its record
  alone. Nothing is claimed on the order of records with equal keys.
\<close>

theorem SortSizesDescending_sorts:
  fixes Count Size :: "'a::len word"
  assumes contract: "qsort_contract libc_sort"
    and arr: "Array = Some base"
    and cnt: "1 \<le> Count"
    and sz: "sizeof_size_t \<le> Size"
    and room: "unat Count * unat Size \<le> length base"
  shows "\<exists>base'.
      SortSizesDescending libc_sort load_size Array Count Size = Some base' \<and>
      length base' = length base \<and>
      mset (elements (unat Count) (unat Size) base') =
        mset (elements (unat Count) (unat Size) base) \<and>
      sorted_wrt (\<lambda>a b. record_key load_size b \<le> record_key load_size a)
        (elements (unat Count) (unat Size) base') \<and>
      drop (unat Count * unat Size) base' = drop (unat Count * unat Size) base \<and>
      (\<forall>a b a' b'. record_key load_size a = record_key load_size a' \<and>
                    record_key load_size b = record_key load_size b' \<longrightarrow>
                    size_sorter load_size a b = size_sorter load_size a' b') \<and>
      (\<forall>k p q. length k = LENGTH('a) div 8 \<longrightarrow>
                 record_key load_size (k @ p) = record_key load_size (k @ q))"
proof -
  define n where "n = unat Count"
  define S where "S = unat Size"
  define es where "es = elements n S base"
  define ys where "ys = libc_sort (size_sorter load_size) es"
  define base' where "base' = concat ys @ drop (n * S) base"
  from cnt have "Count \<noteq> 0" by (auto simp: word_le_nat_alt)
  moreover from sz have "\<not> Size < sizeof_size_t" by simp
  ultimately have run: "SortSizesDescending libc_sort load_size Array Count Size = Some base'"
    by (simp add: SortSizesDescending_def arr qsort_def base'_def ys_def es_def n_def S_def)
  have "total_ordering (size_sorter load_size) (set es)"
    by (rule total_ordering_size_sorter)
  with contract have perm: "mset ys = mset es"
    and sorted: "sorted_wrt (\<lambda>a b. size_sorter load_size a b \<le> 0) ys"
    unfolding qsort_contract_def ys_def by blast+
  from perm have "length ys = length es" by (rule mset_eq_length)
  then have len_ys: "length ys = n" by (simp add: es_def length_elements)
  from perm have "set ys = set es" by (rule mset_eq_setD)
  moreover have "\<forall>e\<in>set es. length e = S"
    using room elements_length [of n S base] by (simp add: es_def n_def S_def)
  ultimately have uni: "\<forall>y\<in>set ys. length y = S" by simp
  have els: "elements n S base' = ys"
    unfolding base'_def using len_ys uni by (rule elements_concat)
  have lc: "length (concat ys) = n * S"
    using length_concat_uniform [OF uni] len_ys by simp
  have len: "length base' = length base"
    using lc room by (simp add: base'_def n_def S_def)
  have tail: "drop (n * S) base' = drop (n * S) base"
    using lc by (simp add: base'_def)
  have desc: "sorted_wrt (\<lambda>a b. record_key load_size b \<le> record_key load_size a) ys"
    using sorted by (simp only: size_sorter_le_0)
  have keys_only: "\<forall>a b a' b'. record_key load_size a = record_key load_size a' \<and>
                    record_key load_size b = record_key load_size b' \<longrightarrow>
                    size_sorter load_size a b = size_sorter load_size a' b'"
    by (simp add: size_sorter_def)
  have offset0: "\<forall>k p q. length k = LENGTH('a) div 8 \<longrightarrow>
                 record_key load_size (k @ p) = record_key load_size (k @ q)"
    by (simp add: record_key_def)
  show ?thesis
  proof (intro exI conjI)
    show "SortSizesDescending libc_sort load_size Array Count Size = Some base'" by (fact run)
    show "length base' = length base" by (fact len)
    show "mset (elements (unat Count) (unat Size) base') =
        mset (elements (unat Count) (unat Size) base)"
      using perm els by (simp add: es_def n_def S_def)
    show "sorted_wrt (\<lambda>a b. record_key load_size b \<le> record_key load_size a)
        (elements (unat Count) (unat Size) base')"
      using desc els by (simp add: n_def S_def)
    show "drop (unat Count * unat Size) base' = drop (unat Count * unat Size) base"
      using tail by (simp add: n_def S_def)
  qed (fact keys_only offset0)+
qed

text \<open>
  The theorem on a 64-bit little-endian platform, with insertion sort as the library
  sort: three records of 9 bytes with the keys 2, 8, 4 and the payload bytes \<open>a\<close>, \<open>b\<close>, \<open>c\<close>
  end in the order 8, 4, 2, each with its payload.
\<close>

theorem SortSizesDescending_sorts_witness:
  "qsort_contract (insertion_sort :: (byte list \<Rightarrow> byte list \<Rightarrow> int) \<Rightarrow> _) \<and>
   (1 :: 64 word) \<le> 3 \<and> (sizeof_size_t :: 64 word) \<le> 9 \<and>
   unat (3 :: 64 word) * unat (9 :: 64 word) \<le>
     length [2, 0, 0, 0, 0, 0, 0, 0, 97,   8, 0, 0, 0, 0, 0, 0, 0, 98,   4, 0, 0, 0, 0, 0, 0, 0, 99 :: byte] \<and>
   SortSizesDescending insertion_sort (load_le :: byte list \<Rightarrow> 64 word)
     (Some [2, 0, 0, 0, 0, 0, 0, 0, 97,   8, 0, 0, 0, 0, 0, 0, 0, 98,   4, 0, 0, 0, 0, 0, 0, 0, 99])
     3 9
   = Some [8, 0, 0, 0, 0, 0, 0, 0, 98,   4, 0, 0, 0, 0, 0, 0, 0, 99,   2, 0, 0, 0, 0, 0, 0, 0, 97] \<and>
   mset (elements 3 9
     [8, 0, 0, 0, 0, 0, 0, 0, 98,   4, 0, 0, 0, 0, 0, 0, 0, 99,   2, 0, 0, 0, 0, 0, 0, 0, 97 :: byte]) =
   mset (elements 3 9
     [2, 0, 0, 0, 0, 0, 0, 0, 97,   8, 0, 0, 0, 0, 0, 0, 0, 98,   4, 0, 0, 0, 0, 0, 0, 0, 99]) \<and>
   sorted_wrt (\<lambda>a b. record_key (load_le :: byte list \<Rightarrow> 64 word) b \<le> record_key load_le a)
     (elements 3 9
       [8, 0, 0, 0, 0, 0, 0, 0, 98,   4, 0, 0, 0, 0, 0, 0, 0, 99,   2, 0, 0, 0, 0, 0, 0, 0, 97]) \<and>
   map (record_key (load_le :: byte list \<Rightarrow> 64 word))
     (elements 3 9
       [8, 0, 0, 0, 0, 0, 0, 0, 98,   4, 0, 0, 0, 0, 0, 0, 0, 99,   2, 0, 0, 0, 0, 0, 0, 0, 97])
   = [8, 4, 2]"
proof -
  have h1: "(1 :: 64 word) \<le> 3" by simp
  have h2: "(sizeof_size_t :: 64 word) \<le> 9" by (simp add: sizeof_size_t_64)
  have h3: "unat (3 :: 64 word) * unat (9 :: 64 word) \<le>
     length [2, 0, 0, 0, 0, 0, 0, 0, 97,   8, 0, 0, 0, 0, 0, 0, 0, 98,   4, 0, 0, 0, 0, 0, 0, 0, 99 :: byte]"
    by simp
  from SortSizesDescending_sorts [OF insertion_sort_contract refl h1 h2 h3, where load_size = "load_le :: byte list \<Rightarrow> 64 word"]
  have "mset (elements 3 9
     [8, 0, 0, 0, 0, 0, 0, 0, 98,   4, 0, 0, 0, 0, 0, 0, 0, 99,   2, 0, 0, 0, 0, 0, 0, 0, 97 :: byte]) =
   mset (elements 3 9
     [2, 0, 0, 0, 0, 0, 0, 0, 97,   8, 0, 0, 0, 0, 0, 0, 0, 98,   4, 0, 0, 0, 0, 0, 0, 0, 99]) \<and>
   sorted_wrt (\<lambda>a b. record_key (load_le :: byte list \<Rightarrow> 64 word) b \<le> record_key load_le a)
     (elements 3 9
       [8, 0, 0, 0, 0, 0, 0, 0, 98,   4, 0, 0, 0, 0, 0, 0, 0, 99,   2, 0, 0, 0, 0, 0, 0, 0, 97])"
    unfolding sort_example by auto
  with insertion_sort_contract h1 h2 h3 sort_example keys_example show ?thesis
    by (intro conjI) simp_all
qed

end
